theory Spec2Isabelle
  imports Complex_Main
begin

section \<open>Errors\<close>

text \<open>
  The module reports a failure by printing a message and calling \<^verbatim>\<open>sys.exit()\<close>; the
  first three kinds below name those exits after the message printed: missing values
  that cannot be filled (\<^verbatim>\<open>discard_and_fill\<close>), a value out of bounds
  (\<^verbatim>\<open>interp_slice_helper\<close>), a missing value set for a masked array
  (\<^verbatim>\<open>extend_into_mask\<close>). The remaining three are the exceptions the Python
  interpreter and numpy raise by themselves: an integer index into an axis of length 0
  (\<open>IndexError\<close>), a global name that is bound nowhere in the module (\<open>NameError\<close>) and a
  local variable read on a path that never assigned it (\<open>UnboundLocalError\<close>).
  Floating-point numbers are modelled as reals, arrays hold floats.
\<close>

datatype error =
    ConvergenceError
  | OutOfBoundsError
  | ConflictingConfigError
  | IndexError
  | NameError
  | UnboundLocalError

section \<open>Slice helper: bracketing indices and weights along an axis\<close>

text \<open>
  \<^verbatim>\<open>np.nonzero(cond)[0][0]\<close>: the first index at which the condition holds. When it
  holds nowhere, \<^verbatim>\<open>np.nonzero(cond)[0]\<close> is an empty array and indexing it raises
  IndexError; that case is \<open>None\<close> here.
\<close>

fun first_nonzero :: "('a \<Rightarrow> bool) \<Rightarrow> 'a list \<Rightarrow> nat option" where
  "first_nonzero P [] = None"
| "first_nonzero P (x # xs) =
     (if P x then Some 0 else map_option Suc (first_nonzero P xs))"

text \<open>
  \<^verbatim>\<open>interp_slice_helper (data, val0, lon=False)\<close>. The result is \<open>(i1, i2, c1, c2)\<close>.
  \<^verbatim>\<open>data[-1]\<close> is \<open>last data\<close>; it is read only after \<open>i2\<close> was found, so on a
  non-empty array.
\<close>

definition interp_slice_helper ::
  "real list \<Rightarrow> real \<Rightarrow> bool \<Rightarrow> error + (nat \<times> nat \<times> real \<times> real)" where
  "interp_slice_helper data val0 lon =
     (case first_nonzero (\<lambda>x. x > val0) data of
        None \<Rightarrow> Inl IndexError
      | Some i2 \<Rightarrow>
          if i2 > 0 then
            (let i1 = i2 - 1;
                 c2 = (val0 - data ! i1) / (data ! i2 - data ! i1);
                 c1 = 1 - c2
             in Inr (i1, i2, c1, c2))
          else if lon \<and> i2 = 0 \<and> last data - 360 < val0 then
            (let i1 = length data - 1;
                 c2 = (val0 - (data ! i1 - 360)) / (data ! i2 - (data ! i1 - 360));
                 c1 = 1 - c2
             in Inr (i1, i2, c1, c2))
          else Inl OutOfBoundsError)"

text \<open>
  The longitude axis of the wraparound example: the integers from -179 to 179 as floats.
\<close>

definition lon_axis :: "real list" where
  "lon_axis = map real_of_int [-179..179]"

section \<open>Arrays\<close>

text \<open>
  A numpy array of floats with three axes, depth x latitude x longitude: its shape and
  its entries by index. Only entries inside the shape belong to the array. A
  two-dimensional field (latitude x longitude) is the case \<open>dim_z = 1\<close>, to be used
  without the vertical option. Further leading axes (time) are treated by the source as
  independent batches of such arrays. A boolean mask is an array of truth values of the
  same shape.
\<close>

type_synonym grid = "nat \<Rightarrow> nat \<Rightarrow> nat \<Rightarrow> real"
type_synonym mask = "nat \<Rightarrow> nat \<Rightarrow> nat \<Rightarrow> bool"

record ndarray =
  dim_z :: nat
  dim_y :: nat
  dim_x :: nat
  cell :: grid

definition in_bounds :: "ndarray \<Rightarrow> nat \<Rightarrow> nat \<Rightarrow> nat \<Rightarrow> bool" where
  "in_bounds data k j i \<longleftrightarrow> k < dim_z data \<and> j < dim_y data \<and> i < dim_x data"

text \<open>All index triples of an array, in row-major order.\<close>

definition indices :: "ndarray \<Rightarrow> (nat \<times> nat \<times> nat) list" where
  "indices data =
     concat (map (\<lambda>k. concat (map (\<lambda>j. map (\<lambda>i. (k, j, i)) [0..<dim_x data])
                                   [0..<dim_y data]))
                 [0..<dim_z data])"

section \<open>Neighbour analysis\<close>

text \<open>
  \<^verbatim>\<open>neighbours (data, missing_val)\<close>: the array shifted by one cell so that each cell
  holds its western, eastern, southern, northern neighbour; the first (or last) column or
  row copies itself. The shifted arrays are fresh copies. \<^verbatim>\<open>data[...,0]\<close> and
  \<^verbatim>\<open>data[...,0,:]\<close> raise IndexError on an axis of length 0.
\<close>

definition shift_w :: "ndarray \<Rightarrow> grid" where
  "shift_w data = (\<lambda>k j i. if i = 0 then cell data k j 0 else cell data k j (i - 1))"

definition shift_e :: "ndarray \<Rightarrow> grid" where
  "shift_e data =
     (\<lambda>k j i. if i = dim_x data - 1 then cell data k j (dim_x data - 1)
               else cell data k j (i + 1))"

definition shift_s :: "ndarray \<Rightarrow> grid" where
  "shift_s data = (\<lambda>k j i. if j = 0 then cell data k 0 i else cell data k (j - 1) i)"

definition shift_n :: "ndarray \<Rightarrow> grid" where
  "shift_n data =
     (\<lambda>k j i. if j = dim_y data - 1 then cell data k (dim_y data - 1) i
               else cell data k (j + 1) i)"

text \<open>\<^verbatim>\<open>(a != missing_val).astype(float)\<close>: 1.0 where the entry is not the sentinel.\<close>

definition valid :: "grid \<Rightarrow> real \<Rightarrow> grid" where
  "valid a missing_val = (\<lambda>k j i. if a k j i \<noteq> missing_val then 1 else 0)"

definition neighbours ::
  "ndarray \<Rightarrow> real \<Rightarrow>
     error + (grid \<times> grid \<times> grid \<times> grid \<times> grid \<times> grid \<times> grid \<times> grid \<times> grid)" where
  "neighbours data missing_val =
     (if dim_x data = 0 \<or> dim_y data = 0 then Inl IndexError
      else
        let valid_w = valid (shift_w data) missing_val;
            valid_e = valid (shift_e data) missing_val;
            valid_s = valid (shift_s data) missing_val;
            valid_n = valid (shift_n data) missing_val;
            num_valid_neighbours =
              (\<lambda>k j i. valid_w k j i + valid_e k j i + valid_s k j i + valid_n k j i)
        in Inr (shift_w data, shift_e data, shift_s data, shift_n data,
                valid_w, valid_e, valid_s, valid_n, num_valid_neighbours))"

text \<open>
  \<^verbatim>\<open>neighbours_z (data, missing_val)\<close>: the same along the depth axis (third from
  last): the neighbour above and the neighbour below.
\<close>

definition shift_u :: "ndarray \<Rightarrow> grid" where
  "shift_u data = (\<lambda>k j i. if k = 0 then cell data 0 j i else cell data (k - 1) j i)"

definition shift_d :: "ndarray \<Rightarrow> grid" where
  "shift_d data =
     (\<lambda>k j i. if k = dim_z data - 1 then cell data (dim_z data - 1) j i
               else cell data (k + 1) j i)"

definition neighbours_z ::
  "ndarray \<Rightarrow> real \<Rightarrow> error + (grid \<times> grid \<times> grid \<times> grid \<times> grid)" where
  "neighbours_z data missing_val =
     (if dim_z data = 0 then Inl IndexError
      else
        let valid_u = valid (shift_u data) missing_val;
            valid_d = valid (shift_d data) missing_val;
            num_valid_neighbours_z = (\<lambda>k j i. valid_u k j i + valid_d k j i)
        in Inr (shift_u data, shift_d data, valid_u, valid_d, num_valid_neighbours_z))"

section \<open>Mask filler\<close>

text \<open>
  \<^verbatim>\<open>data[index] = values[index]\<close> with a boolean index of the array's shape: the
  selected entries are overwritten, every other entry is kept. The right-hand side is
  computed in full before the assignment.
\<close>

definition assign_where :: "ndarray \<Rightarrow> mask \<Rightarrow> grid \<Rightarrow> ndarray" where
  "assign_where data index values =
     data\<lparr>cell := (\<lambda>k j i. if in_bounds data k j i \<and> index k j i then values k j i
                             else cell data k j i)\<rparr>"

text \<open>
  The body of the loop of \<^verbatim>\<open>extend_into_mask\<close>: one iteration. The tuple returned by
  \<^verbatim>\<open>neighbours_z\<close> is unpacked in the order the source writes
  (\<^verbatim>\<open>data_d, data_u, valid_d, valid_u\<close>), so the local names are exchanged in pairs.
\<close>

definition extend_iter :: "ndarray \<Rightarrow> real \<Rightarrow> bool \<Rightarrow> error + ndarray" where
  "extend_iter data missing_val use_3d =
     (case neighbours data missing_val of
        Inl e \<Rightarrow> Inl e
      | Inr (data_w, data_e, data_s, data_n, valid_w, valid_e, valid_s, valid_n,
             num_valid_neighbours) \<Rightarrow>
          let index = (\<lambda>k j i. cell data k j i = missing_val \<and> num_valid_neighbours k j i > 0);
              data1 = assign_where data index
                        (\<lambda>k j i. (data_w k j i * valid_w k j i + data_e k j i * valid_e k j i +
                                   data_s k j i * valid_s k j i + data_n k j i * valid_n k j i)
                                  / num_valid_neighbours k j i)
          in if use_3d then
               (case neighbours_z data1 missing_val of
                  Inl e \<Rightarrow> Inl e
                | Inr (data_d, data_u, valid_d, valid_u, num_valid_neighbours_z) \<Rightarrow>
                    let index = (\<lambda>k j i. cell data1 k j i = missing_val \<and>
                                           num_valid_neighbours k j i = 0 \<and>
                                           num_valid_neighbours_z k j i > 0)
                    in Inr (assign_where data1 index
                              (\<lambda>k j i. (data_u k j i * valid_u k j i +
                                         data_d k j i * valid_d k j i)
                                        / num_valid_neighbours_z k j i)))
             else Inr data1)"

text \<open>\<^verbatim>\<open>for iter in range(num_iters)\<close>.\<close>

fun extend_loop :: "nat \<Rightarrow> ndarray \<Rightarrow> real \<Rightarrow> bool \<Rightarrow> error + ndarray" where
  "extend_loop 0 data missing_val use_3d = Inr data"
| "extend_loop (Suc n) data missing_val use_3d =
     (case extend_iter data missing_val use_3d of
        Inl e \<Rightarrow> Inl e
      | Inr data' \<Rightarrow> extend_loop n data' missing_val use_3d)"

text \<open>
  \<^verbatim>\<open>extend_into_mask (data, missing_val=-9999, masked=False, use_3d=False, num_iters=1)\<close>.
  With \<open>masked\<close> the argument is a MaskedArray: \<open>data\<close> are its values (\<^verbatim>\<open>data.data\<close>)
  and \<open>data_mask\<close> its mask (\<^verbatim>\<open>data.mask\<close>); otherwise it is a plain array and
  \<open>data_mask\<close> is not read. The module imports \<^verbatim>\<open>numpy as np\<close>, \<^verbatim>\<open>sys\<close> and
  names from \<^verbatim>\<open>scipy.interpolate\<close> and \<^verbatim>\<open>utils\<close>; the name \<^verbatim>\<open>ma\<close> of the final
  re-masking, \<^verbatim>\<open>ma.masked_where(data==missing_val, data)\<close>, is bound nowhere, so that
  line raises NameError.
\<close>

definition extend_into_mask ::
  "ndarray \<Rightarrow> mask \<Rightarrow> real \<Rightarrow> bool \<Rightarrow> bool \<Rightarrow> nat \<Rightarrow> error + ndarray" where
  "extend_into_mask data data_mask missing_val masked use_3d num_iters =
     (if missing_val \<noteq> - 9999 \<and> masked then Inl ConflictingConfigError
      else
        let data_unmasked =
              (if masked then assign_where data data_mask (\<lambda>k j i. missing_val) else data)
        in case extend_loop num_iters data_unmasked missing_val use_3d of
             Inl e \<Rightarrow> Inl e
           | Inr data' \<Rightarrow> if masked then Inl NameError else Inr data')"

text \<open>The entry of a returned array at one index; an error is passed on.\<close>

definition result_cell :: "error + ndarray \<Rightarrow> nat \<Rightarrow> nat \<Rightarrow> nat \<Rightarrow> error + real" where
  "result_cell r k j i = (case r of Inl e \<Rightarrow> Inl e | Inr data \<Rightarrow> Inr (cell data k j i))"

section \<open>Discard and fill\<close>

text \<open>\<^verbatim>\<open>np.count_nonzero((data==missing_val)*fill)\<close>.\<close>

definition num_missing :: "ndarray \<Rightarrow> mask \<Rightarrow> real \<Rightarrow> nat" where
  "num_missing data fill missing_val =
     length (filter (\<lambda>(k, j, i). cell data k j i = missing_val \<and> fill k j i) (indices data))"

text \<open>
  The \<^verbatim>\<open>while num_missing > 0\<close> loop of \<^verbatim>\<open>discard_and_fill\<close>. At the head of the loop
  the variable \<^verbatim>\<open>num_missing\<close> always holds the count for the current array, so the
  array is the whole loop state. The call of \<^verbatim>\<open>extend_into_mask\<close> passes a plain
  array, \<open>masked = False\<close> and one iteration.
\<close>

function fill_loop :: "ndarray \<Rightarrow> mask \<Rightarrow> real \<Rightarrow> bool \<Rightarrow> error + ndarray" where
  "fill_loop data fill missing_val use_3d =
     (if num_missing data fill missing_val > 0 then
        (case extend_into_mask data (\<lambda>k j i. False) missing_val False use_3d 1 of
           Inl e \<Rightarrow> Inl e
         | Inr data' \<Rightarrow>
             if num_missing data' fill missing_val = num_missing data fill missing_val
             then Inl ConvergenceError
             else fill_loop data' fill missing_val use_3d)
      else Inr data)"
  by pat_completeness auto

text \<open>\<^verbatim>\<open>discard_and_fill (data, discard, fill, missing_val=-9999, use_3d=True)\<close>.\<close>

definition discard_and_fill ::
  "ndarray \<Rightarrow> mask \<Rightarrow> mask \<Rightarrow> real \<Rightarrow> bool \<Rightarrow> error + ndarray" where
  "discard_and_fill data discard fill missing_val use_3d =
     fill_loop (assign_where data discard (\<lambda>k j i. missing_val)) fill missing_val use_3d"

section \<open>Boundary slices\<close>

text \<open>\<^verbatim>\<open>a[keep]\<close> with a boolean index: the selected entries, in order.\<close>

definition select :: "'a list \<Rightarrow> bool list \<Rightarrow> 'a list" where
  "select xs keep = map fst (filter snd (zip xs keep))"

text \<open>
  \<^verbatim>\<open>interp_bdry (source_h, source_z, source_data, target_h, target_z, target_hfac,
  depth_dependent=False)\<close>. Two-dimensional arrays are lists of rows (depth x horizontal);
  a one-dimensional array is a single row. \<open>source_data\<close> with \<open>data_mask\<close> is the
  masked source slice and \<open>source_z_mask\<close> the mask read from the meshed depth axis.
  \<open>interp2d\<close> stands for scipy's \<^verbatim>\<open>interp2d(..., kind='linear', bounds_error=False)\<close>
  followed by its evaluation at the target axes; it is a parameter. On the path with
  \<open>depth_dependent = False\<close> no interpolant is built: the local variable
  \<^verbatim>\<open>interpolant\<close> is assigned only under \<^verbatim>\<open>if depth_dependent\<close>, so reading it raises
  UnboundLocalError.
\<close>

definition interp_bdry ::
  "(real list \<Rightarrow> real list \<Rightarrow> real list \<Rightarrow> real list \<Rightarrow> real list \<Rightarrow> error + real list list) \<Rightarrow>
   real list \<Rightarrow> real list \<Rightarrow> bool list list \<Rightarrow> real list list \<Rightarrow> bool list list \<Rightarrow>
   real list \<Rightarrow> real list \<Rightarrow> real list list \<Rightarrow> bool \<Rightarrow> error + real list list" where
  "interp_bdry interp2d source_h source_z source_z_mask source_data data_mask
               target_h target_z target_hfac depth_dependent =
     (let keep = map Not (concat data_mask);
          source_h_mesh = (if depth_dependent then concat (replicate (length source_z) source_h)
                           else source_h);
          source_z_mesh = (if depth_dependent
                           then concat (map (\<lambda>z. replicate (length source_h) z) source_z)
                           else source_z);
          source_h' = select source_h_mesh keep;
          source_data' = select (concat source_data) keep
      in if depth_dependent then
           (let source_z' = select source_z_mesh (map Not (concat source_z_mask))
            in case interp2d source_h' source_z' source_data' target_h target_z of
                 Inl e \<Rightarrow> Inl e
               | Inr data_interp \<Rightarrow>
                   Inr (map2 (map2 (\<lambda>v hfac. if hfac = 0 then 0 else v))
                          data_interp target_hfac))
         else Inl UnboundLocalError)"

section \<open>Notions used to state the properties\<close>

text \<open>
  The values held by the four horizontal and the two vertical neighbours of a cell (an
  edge cell is its own neighbour on that side), the values among them that are not the
  sentinel, and the arithmetic mean of a list. The vertical neighbours are written
  directly on the entries of the array: the cell one level up (the cell itself on level
  0) and the cell one level down (the cell itself on the last level).
\<close>

definition horizontal_neighbours :: "ndarray \<Rightarrow> nat \<Rightarrow> nat \<Rightarrow> nat \<Rightarrow> real list" where
  "horizontal_neighbours data k j i =
     [shift_w data k j i, shift_e data k j i, shift_s data k j i, shift_n data k j i]"

definition vertical_neighbours :: "ndarray \<Rightarrow> nat \<Rightarrow> nat \<Rightarrow> nat \<Rightarrow> real list" where
  "vertical_neighbours data k j i =
     [if k = 0 then cell data k j i else cell data (k - 1) j i,
      if k + 1 < dim_z data then cell data (k + 1) j i else cell data k j i]"

definition valid_values :: "real \<Rightarrow> real list \<Rightarrow> real list" where
  "valid_values missing_val vs = filter (\<lambda>v. v \<noteq> missing_val) vs"

definition mean :: "real list \<Rightarrow> real" where
  "mean vs = sum_list vs / real (length vs)"

text \<open>
  The neighbour graph: two cells are adjacent when they differ by one step along the
  longitude or the latitude axis, and in 3D mode also along the depth axis. A cell is
  connected to valid data when a path of adjacent cells inside the array leads from it to
  a cell that does not hold the sentinel.
\<close>

definition adjacent :: "bool \<Rightarrow> nat \<times> nat \<times> nat \<Rightarrow> nat \<times> nat \<times> nat \<Rightarrow> bool" where
  "adjacent use_3d c c' =
     (case (c, c') of ((k, j, i), (k', j', i')) \<Rightarrow>
        (k = k' \<and> j = j' \<and> (i = Suc i' \<or> i' = Suc i)) \<or>
        (k = k' \<and> i = i' \<and> (j = Suc j' \<or> j' = Suc j)) \<or>
        (use_3d \<and> j = j' \<and> i = i' \<and> (k = Suc k' \<or> k' = Suc k)))"

inductive connected_to_valid :: "ndarray \<Rightarrow> real \<Rightarrow> bool \<Rightarrow> nat \<times> nat \<times> nat \<Rightarrow> bool"
  for data :: ndarray and missing_val :: real and use_3d :: bool where
  here: "in_bounds data k j i \<Longrightarrow> cell data k j i \<noteq> missing_val \<Longrightarrow>
         connected_to_valid data missing_val use_3d (k, j, i)"
| step: "connected_to_valid data missing_val use_3d c' \<Longrightarrow> adjacent use_3d (k, j, i) c' \<Longrightarrow>
         in_bounds data k j i \<Longrightarrow> connected_to_valid data missing_val use_3d (k, j, i)"

text \<open>
  The two phases of one iteration, written out: the number of valid horizontal (vertical)
  neighbours, the sum of their values, and the array after the horizontal and after the
  vertical assignment.
\<close>

definition hnum :: "ndarray \<Rightarrow> real \<Rightarrow> grid" where
  "hnum data m = (\<lambda>k j i. valid (shift_w data) m k j i + valid (shift_e data) m k j i +
                            valid (shift_s data) m k j i + valid (shift_n data) m k j i)"

definition hsum :: "ndarray \<Rightarrow> real \<Rightarrow> grid" where
  "hsum data m = (\<lambda>k j i. shift_w data k j i * valid (shift_w data) m k j i +
                            shift_e data k j i * valid (shift_e data) m k j i +
                            shift_s data k j i * valid (shift_s data) m k j i +
                            shift_n data k j i * valid (shift_n data) m k j i)"

definition vnum :: "ndarray \<Rightarrow> real \<Rightarrow> grid" where
  "vnum data m = (\<lambda>k j i. valid (shift_u data) m k j i + valid (shift_d data) m k j i)"

definition vsum :: "ndarray \<Rightarrow> real \<Rightarrow> grid" where
  "vsum data m = (\<lambda>k j i. shift_d data k j i * valid (shift_d data) m k j i +
                            shift_u data k j i * valid (shift_u data) m k j i)"

definition fill_h :: "ndarray \<Rightarrow> real \<Rightarrow> ndarray" where
  "fill_h data m =
     assign_where data (\<lambda>k j i. cell data k j i = m \<and> hnum data m k j i > 0)
       (\<lambda>k j i. hsum data m k j i / hnum data m k j i)"

definition fill_v :: "ndarray \<Rightarrow> ndarray \<Rightarrow> real \<Rightarrow> ndarray" where
  "fill_v data1 data m =
     assign_where data1
       (\<lambda>k j i. cell data1 k j i = m \<and> hnum data m k j i = 0 \<and> vnum data1 m k j i > 0)
       (\<lambda>k j i. vsum data1 m k j i / vnum data1 m k j i)"

text \<open>
  One pass of the loop body on an array with no empty axis, and the invariant that every
  cell of \<open>d0\<close> without a path to valid data still holds the sentinel in \<open>x\<close>.
\<close>

definition one_pass :: "ndarray \<Rightarrow> real \<Rightarrow> bool \<Rightarrow> ndarray" where
  "one_pass d m u = (if u then fill_v (fill_h d m) d m else fill_h d m)"

definition sealed :: "ndarray \<Rightarrow> real \<Rightarrow> bool \<Rightarrow> ndarray \<Rightarrow> bool" where
  "sealed d0 m u x \<longleftrightarrow>
     dim_z x = dim_z d0 \<and> dim_y x = dim_y d0 \<and> dim_x x = dim_x d0 \<and>
     (\<forall>k j i. in_bounds d0 k j i \<and> \<not> connected_to_valid d0 m u (k, j, i) \<longrightarrow> cell x k j i = m)"

text \<open>
  Example arrays. \<open>field5\<close>: latitudes -80, -70, -60 and longitudes -180, -90, 0, 90, the
  value 5.0 everywhere except one cell holding the sentinel -9999.
\<close>

definition field5 :: ndarray where
  "field5 = \<lparr>dim_z = 1, dim_y = 3, dim_x = 4,
             cell = (\<lambda>k j i. if j = 1 \<and> i = 2 then - 9999 else 5)\<rparr>"

text \<open>
  \<open>stack_field\<close>: three levels of one row and three columns; level 0 holds 3.0 in its
  first column, level 1 holds 4.0 in its last column, level 2 holds 7.0 in its first
  column, every other cell the sentinel.
  \<open>empty_levels\<close>: two levels of one row and three columns, level 0 all 1.0 and level 1
  all sentinel.
\<close>

definition stack_field :: ndarray where
  "stack_field = \<lparr>dim_z = 3, dim_y = 1, dim_x = 3,
                   cell = (\<lambda>k j i. if k = 0 \<and> i = 0 then 3
                                    else if k = 1 \<and> i = 2 then 4
                                    else if k = 2 \<and> i = 0 then 7 else - 9999)\<rparr>"

definition empty_levels :: ndarray where
  "empty_levels = \<lparr>dim_z = 2, dim_y = 1, dim_x = 3,
                    cell = (\<lambda>k j i. if k = 0 then 1 else - 9999)\<rparr>"

section \<open>Properties of the slice helper\<close>

lemma first_nonzero_None: "first_nonzero P xs = None \<longleftrightarrow> (\<forall>x \<in> set xs. \<not> P x)"
  by (induction xs) auto

lemma first_nonzero_Some:
  "first_nonzero P xs = Some n \<Longrightarrow> n < length xs \<and> P (xs ! n) \<and> (\<forall>k<n. \<not> P (xs ! k))"
proof (induction xs arbitrary: n)
  case Nil
  then show ?case by simp
next
  case (Cons x xs)
  show ?case
  proof (cases "P x")
    case True
    with Cons.prems show ?thesis by simp
  next
    case False
    with Cons.prems obtain n' where n': "first_nonzero P xs = Some n'" "n = Suc n'"
      by auto
    from Cons.IH [OF n'(1)] have ih: "n' < length xs" "P (xs ! n')" "\<forall>k<n'. \<not> P (xs ! k)"
      by auto
    have "\<forall>k<Suc n'. \<not> P ((x # xs) ! k)"
    proof (intro allI impI)
      fix k assume "k < Suc n'"
      then show "\<not> P ((x # xs) ! k)"
        using False ih(3) by (cases k) auto
    qed
    with ih n'(2) show ?thesis by simp
  qed
qed

lemma first_nonzero_head: "xs \<noteq> [] \<Longrightarrow> P (hd xs) \<Longrightarrow> first_nonzero P xs = Some 0"
  by (cases xs) auto

lemma first_nonzero_exists:
  "x \<in> set xs \<Longrightarrow> P x \<Longrightarrow> \<exists>n. first_nonzero P xs = Some n"
  using first_nonzero_None [of P xs] by (cases "first_nonzero P xs") auto


text \<open>
  C3. For a monotonically increasing axis \<open>A\<close> and a value \<open>val0\<close> strictly between its
  first and its last sample, the helper returns: \<open>i2\<close> is the first index with
  \<open>A ! i2 > val0\<close>, \<open>i1 = i2 - 1\<close>, the weights sum to one and
  \<open>c1 * A ! i1 + c2 * A ! i2 = val0\<close> (in exact arithmetic). The longitude flag plays no
  part on this path.
\<close>

theorem interp_slice_helper_inside:
  assumes "sorted A" and "A \<noteq> []" and "hd A < val0" and "val0 < last A"
  shows "\<exists>i1 i2 c1 c2.
           interp_slice_helper A val0 lon = Inr (i1, i2, c1, c2) \<and>
           i2 < length A \<and> A ! i2 > val0 \<and> (\<forall>k<i2. \<not> A ! k > val0) \<and>
           0 < i2 \<and> i1 = i2 - 1 \<and>
           c1 + c2 = 1 \<and> c1 * A ! i1 + c2 * A ! i2 = val0"
proof -
  have "last A \<in> set A" using assms(2) by simp
  with assms(4) obtain i2 where i2: "first_nonzero (\<lambda>x. x > val0) A = Some i2"
    using first_nonzero_exists [of "last A" A "\<lambda>x. x > val0"] by auto
  from first_nonzero_Some [OF i2]
  have b: "i2 < length A" "A ! i2 > val0" "\<forall>k<i2. \<not> A ! k > val0" by auto
  have pos: "0 < i2"
  proof (rule ccontr)
    assume "\<not> 0 < i2"
    then have "i2 = 0" by simp
    with b(2) have "hd A > val0" using assms(2) by (simp add: hd_conv_nth)
    with assms(3) show False by simp
  qed
  then have "i2 - 1 < i2" by simp
  with b(3) have lo: "A ! (i2 - 1) \<le> val0" by fastforce
  define c2 where "c2 = (val0 - A ! (i2 - 1)) / (A ! i2 - A ! (i2 - 1))"
  have ne: "A ! i2 - A ! (i2 - 1) \<noteq> 0" using lo b(2) by simp
  have res: "interp_slice_helper A val0 lon = Inr (i2 - 1, i2, 1 - c2, c2)"
    using i2 pos by (simp add: interp_slice_helper_def c2_def Let_def)
  have "(1 - c2) * A ! (i2 - 1) + c2 * A ! i2 = A ! (i2 - 1) + c2 * (A ! i2 - A ! (i2 - 1))"
    by (simp add: algebra_simps)
  also have "c2 * (A ! i2 - A ! (i2 - 1)) = val0 - A ! (i2 - 1)"
    using ne by (simp add: c2_def)
  finally have eq: "(1 - c2) * A ! (i2 - 1) + c2 * A ! i2 = val0" by simp
  show ?thesis using res b pos eq by auto
qed

theorem interp_slice_helper_inside_witness:
  "sorted [0, 10, 20 :: real] \<and> [0, 10, 20 :: real] \<noteq> [] \<and>
   hd [0, 10, 20 :: real] < 12 \<and> 12 < last [0, 10, 20 :: real] \<and>
   interp_slice_helper [0, 10, 20] 12 False = Inr (1, 2, 4 / 5, 1 / 5)"
proof -
  have h: "sorted [0, 10, 20 :: real]" "[0, 10, 20 :: real] \<noteq> []"
    "hd [0, 10, 20 :: real] < 12" "12 < last [0, 10, 20 :: real]"
    by simp_all
  from interp_slice_helper_inside [OF h, of False]
  obtain i1 i2 c1 c2 where
    r: "interp_slice_helper [0, 10, 20] 12 False = Inr (i1, i2, c1, c2)"
    by blast
  have "interp_slice_helper [0, 10, 20] 12 False = Inr (1, 2, 4 / 5, 1 / 5)"
    by (simp add: interp_slice_helper_def Let_def)
  with h show ?thesis by simp
qed


lemma lon_axis_bound: "x \<in> set lon_axis \<Longrightarrow> x \<le> 179"
  by (auto simp: lon_axis_def)

text \<open>
  The lower side of the periodic gap: for a non-empty axis \<open>A\<close>, \<open>lon = True\<close> and
  \<open>last A - 360 < val0 < hd A\<close>, the helper returns \<open>i1\<close> = the last index, \<open>i2 = 0\<close>, and
  weights with \<open>c1 + c2 = 1\<close> and \<open>c1 * (A ! i1 - 360) + c2 * A ! i2 = val0\<close>.
\<close>

lemma interp_slice_helper_wrap:
  assumes "A \<noteq> []" and "last A - 360 < val0" and "val0 < hd A"
  shows "\<exists>c1 c2.
           interp_slice_helper A val0 True = Inr (length A - 1, 0, c1, c2) \<and>
           c1 + c2 = 1 \<and> c1 * (A ! (length A - 1) - 360) + c2 * A ! 0 = val0"
proof -
  have i2: "first_nonzero (\<lambda>x. x > val0) A = Some 0"
    using assms(1,3) by (simp add: first_nonzero_head)
  have l: "A ! (length A - Suc 0) = last A" using assms(1) by (simp add: last_conv_nth)
  have h: "A ! 0 = hd A" using assms(1) by (simp add: hd_conv_nth)
  define c2 where "c2 = (val0 - (last A - 360)) / (hd A - (last A - 360))"
  have ne: "hd A - (last A - 360) \<noteq> 0" using assms(2,3) by simp
  have res: "interp_slice_helper A val0 True = Inr (length A - 1, 0, 1 - c2, c2)"
    using i2 assms(2) by (simp add: interp_slice_helper_def Let_def c2_def l h)
  have "(1 - c2) * (last A - 360) + c2 * hd A = (last A - 360) + c2 * (hd A - (last A - 360))"
    by (simp add: algebra_simps)
  also have "c2 * (hd A - (last A - 360)) = val0 - (last A - 360)"
    using ne by (simp add: c2_def)
  finally have "(1 - c2) * (last A - 360) + c2 * hd A = val0" by simp
  with res show ?thesis by (auto simp: l h)
qed

lemma lon_axis_facts: "lon_axis \<noteq> []" "hd lon_axis = -179" "last lon_axis = 179"
proof -
  have u: "[-179..179] = -179 # [-178..179]" by (simp add: upto_rec1)
  have v: "[-179..179] = [-179..178] @ [179]" by (subst upto_rec2) simp_all
  have ne: "[-179..179] \<noteq> []" by (simp add: u)
  have "last [-179..179] = 179" by (subst v) simp
  then show "last lon_axis = 179" using ne by (simp add: lon_axis_def last_map)
  show "lon_axis \<noteq> []" by (simp add: lon_axis_def u)
  show "hd lon_axis = -179" by (simp add: lon_axis_def u)
qed

lemma lon_axis_lower_gap:
  "interp_slice_helper lon_axis (- 361 / 2) True = Inr (358, 0, 3 / 4, 1 / 4)"
proof -
  have h: "lon_axis \<noteq> []" "last lon_axis - 360 < - 361 / 2" "- 361 / 2 < hd lon_axis"
    by (simp_all add: lon_axis_facts)
  from interp_slice_helper_wrap [OF h] obtain c1 c2 where
    r: "interp_slice_helper lon_axis (- 361 / 2) True = Inr (length lon_axis - 1, 0, c1, c2)"
    and s: "c1 + c2 = 1"
    and e: "c1 * (lon_axis ! (length lon_axis - 1) - 360) + c2 * lon_axis ! 0 = - 361 / 2"
    by blast
  have len: "length lon_axis = 359" by (simp add: lon_axis_def)
  have "lon_axis ! (length lon_axis - 1) = 179"
    using lon_axis_facts by (metis last_conv_nth)
  moreover have "lon_axis ! 0 = - 179"
    using lon_axis_facts by (metis hd_conv_nth)
  ultimately have "c1 * (179 - 360) + c2 * (- 179) = - 361 / 2" using e by simp
  with s have "c1 = 3 / 4" "c2 = 1 / 4" by auto
  with r len show ?thesis by simp
qed

lemma lon_axis_upper_gap: "first_nonzero (\<lambda>x. x > 359 / 2) lon_axis = None"
proof -
  have "\<forall>x \<in> set lon_axis. \<not> x > 359 / 2"
    using lon_axis_bound by fastforce
  then show ?thesis by (simp add: first_nonzero_None)
qed

text \<open>
  C4 fails on the upper side of the periodic gap: on the longitude axis -179, ..., 179
  with \<open>lon = True\<close>, the value 179.5 lies between the last sample and the first sample
  shifted by 360, yet no indices and weights are returned. No sample exceeds the value,
  so the search for the first sample above it finds nothing and the call ends in
  IndexError before the longitude rule is looked at. The same longitude written below
  the first sample, -180.5, does wrap: last index, index 0, weights 3/4 and 1/4.
\<close>

theorem interp_slice_helper_gap_above_raises:
  "interp_slice_helper lon_axis (359 / 2) True = Inl IndexError \<and>
   interp_slice_helper lon_axis (- 361 / 2) True = Inr (358, 0, 3 / 4, 1 / 4)"
proof
  from lon_axis_upper_gap
  show "interp_slice_helper lon_axis (359 / 2) True = Inl IndexError"
    by (simp add: interp_slice_helper_def)
  show "interp_slice_helper lon_axis (- 361 / 2) True = Inr (358, 0, 3 / 4, 1 / 4)"
    by (rule lon_axis_lower_gap)
qed

text \<open>
  C8 fails above the axis: for a value beyond the last sample (and \<open>lon = False\<close>) the
  call ends in IndexError, raised by the search for the first sample above the value,
  and never reaches the exit that reports the value as out of bounds. Below the first
  sample the same axis does give the out-of-bounds exit.
\<close>

theorem interp_slice_helper_above_axis:
  "interp_slice_helper [0, 1, 2] 3 False = Inl IndexError \<and>
   interp_slice_helper [0, 1, 2] (- 1) False = Inl OutOfBoundsError"
  by (simp add: interp_slice_helper_def)

section \<open>Properties of the mask filler\<close>

lemma assign_where_dims [simp]:
  "dim_z (assign_where d ix v) = dim_z d" "dim_y (assign_where d ix v) = dim_y d"
  "dim_x (assign_where d ix v) = dim_x d"
  by (simp_all add: assign_where_def)

lemma assign_where_in_bounds [simp]:
  "in_bounds (assign_where d ix v) k j i = in_bounds d k j i"
  by (simp add: in_bounds_def)

lemma assign_where_indices [simp]: "indices (assign_where d ix v) = indices d"
  by (simp add: indices_def)

lemma assign_where_cell:
  "cell (assign_where d ix v) k j i =
     (if in_bounds d k j i \<and> ix k j i then v k j i else cell d k j i)"
  by (simp add: assign_where_def)

lemma fill_h_dims [simp]:
  "dim_z (fill_h d m) = dim_z d" "dim_y (fill_h d m) = dim_y d" "dim_x (fill_h d m) = dim_x d"
  "in_bounds (fill_h d m) k j i = in_bounds d k j i" "indices (fill_h d m) = indices d"
  by (simp_all add: fill_h_def)

lemma fill_v_dims [simp]:
  "dim_z (fill_v d1 d m) = dim_z d1" "dim_y (fill_v d1 d m) = dim_y d1"
  "dim_x (fill_v d1 d m) = dim_x d1"
  "in_bounds (fill_v d1 d m) k j i = in_bounds d1 k j i" "indices (fill_v d1 d m) = indices d1"
  by (simp_all add: fill_v_def)

lemma extend_iter_eq:
  "extend_iter d m u =
     (if dim_x d = 0 \<or> dim_y d = 0 then Inl IndexError
      else if u then (if dim_z d = 0 then Inl IndexError else Inr (fill_v (fill_h d m) d m))
      else Inr (fill_h d m))"
  by (simp add: extend_iter_def neighbours_def neighbours_z_def Let_def fill_h_def fill_v_def
      hnum_def hsum_def vnum_def vsum_def)

lemma fill_h_cell:
  "cell (fill_h d m) k j i =
     (if in_bounds d k j i \<and> cell d k j i = m \<and> hnum d m k j i > 0
      then hsum d m k j i / hnum d m k j i else cell d k j i)"
  by (simp add: fill_h_def assign_where_cell)

lemma fill_v_cell:
  "cell (fill_v d1 d m) k j i =
     (if in_bounds d1 k j i \<and> cell d1 k j i = m \<and> hnum d m k j i = 0 \<and> vnum d1 m k j i > 0
      then vsum d1 m k j i / vnum d1 m k j i else cell d1 k j i)"
  by (simp add: fill_v_def assign_where_cell)

lemma fill_h_frame: "cell d k j i \<noteq> m \<Longrightarrow> cell (fill_h d m) k j i = cell d k j i"
  by (simp add: fill_h_cell)

lemma fill_v_frame: "cell d1 k j i \<noteq> m \<Longrightarrow> cell (fill_v d1 d m) k j i = cell d1 k j i"
  by (simp add: fill_v_cell)

lemma extend_iter_frame:
  assumes "extend_iter d m u = Inr d'"
  shows "dim_z d' = dim_z d" "dim_y d' = dim_y d" "dim_x d' = dim_x d"
    "cell d k j i \<noteq> m \<Longrightarrow> cell d' k j i = cell d k j i"
  using assms by (auto simp: extend_iter_eq fill_h_frame fill_v_frame split: if_splits)

lemma extend_loop_frame:
  "extend_loop n d m u = Inr d' \<Longrightarrow>
     dim_z d' = dim_z d \<and> dim_y d' = dim_y d \<and> dim_x d' = dim_x d \<and>
     (\<forall>k j i. cell d k j i \<noteq> m \<longrightarrow> cell d' k j i = cell d k j i)"
proof (induction n arbitrary: d)
  case 0
  then show ?case by simp
next
  case (Suc n)
  from Suc.prems obtain d1 where s: "extend_iter d m u = Inr d1"
    and r: "extend_loop n d1 m u = Inr d'"
    by (auto split: sum.splits)
  from Suc.IH [OF r] extend_iter_frame [OF s] show ?case by auto
qed

lemma extend_into_mask_plain:
  "extend_into_mask d msk m False u n = extend_loop n d m u"
  by (simp add: extend_into_mask_def split: sum.splits)

lemma extend_loop_snoc:
  "extend_loop (Suc n) d m u =
     (case extend_loop n d m u of Inl e \<Rightarrow> Inl e | Inr dn \<Rightarrow> extend_iter dn m u)"
proof (induction n arbitrary: d)
  case 0
  show ?case by (simp split: sum.splits)
next
  case (Suc n)
  show ?case
  proof (cases "extend_iter d m u")
    case (Inl e)
    then show ?thesis by simp
  next
    case (Inr d1)
    have "extend_loop (Suc (Suc n)) d m u = extend_loop (Suc n) d1 m u"
      using Inr by simp
    also have "\<dots> = (case extend_loop n d1 m u of Inl e \<Rightarrow> Inl e | Inr dn \<Rightarrow> extend_iter dn m u)"
      by (rule Suc.IH)
    also have "extend_loop n d1 m u = extend_loop (Suc n) d m u"
      using Inr by simp
    finally show ?thesis .
  qed
qed

lemma set_indices: "(k, j, i) \<in> set (indices d) \<longleftrightarrow> in_bounds d k j i"
  by (force simp: indices_def in_bounds_def)

lemma filter_length_mono:
  "(\<And>x. x \<in> set xs \<Longrightarrow> P x \<Longrightarrow> Q x) \<Longrightarrow> length (filter P xs) \<le> length (filter Q xs)"
  by (induction xs) auto

lemma num_missing_mono:
  assumes "dim_z d' = dim_z d" "dim_y d' = dim_y d" "dim_x d' = dim_x d"
    and "\<And>k j i. cell d k j i \<noteq> m \<Longrightarrow> cell d' k j i = cell d k j i"
  shows "num_missing d' fill m \<le> num_missing d fill m"
proof -
  have "indices d' = indices d" using assms(1-3) by (simp add: indices_def)
  moreover have c: "\<And>k j i. cell d' k j i = m \<Longrightarrow> cell d k j i = m"
  proof (rule ccontr)
    fix k j i assume a: "cell d' k j i = m" and b: "cell d k j i \<noteq> m"
    from assms(4) [OF b] a b show False by simp
  qed
  have "\<And>x. (case x of (k, j, i) \<Rightarrow> cell d' k j i = m \<and> fill k j i) \<Longrightarrow>
                      (case x of (k, j, i) \<Rightarrow> cell d k j i = m \<and> fill k j i)"
    using c by (auto split: prod.splits)
  then have "length (filter (\<lambda>(k, j, i). cell d' k j i = m \<and> fill k j i) (indices d))
               \<le> length (filter (\<lambda>(k, j, i). cell d k j i = m \<and> fill k j i) (indices d))"
    by (intro filter_length_mono) auto
  ultimately show ?thesis
    unfolding num_missing_def by simp
qed

lemma extend_once_num_missing:
  assumes "extend_into_mask d msk m False u 1 = Inr d'"
  shows "num_missing d' fill m \<le> num_missing d fill m"
proof -
  from assms have "extend_loop 1 d m u = Inr d'" by (simp add: extend_into_mask_plain)
  from extend_loop_frame [OF this] show ?thesis
    by (intro num_missing_mono) auto
qed

termination fill_loop
proof (relation "measure (\<lambda>(data, fill, m, u). num_missing data fill m)")
  show "wf (measure (\<lambda>(data, fill, m, u). num_missing data fill m))" by simp
next
  fix data :: ndarray and fill :: mask and missing_val :: real and use_3d :: bool and x2
  assume "0 < num_missing data fill missing_val"
    and e: "extend_into_mask data (\<lambda>k j i. False) missing_val False use_3d 1 = Inr x2"
    and ne: "num_missing x2 fill missing_val \<noteq> num_missing data fill missing_val"
  from extend_once_num_missing [OF e, of fill] ne
  show "((x2, fill, missing_val, use_3d), (data, fill, missing_val, use_3d))
          \<in> measure (\<lambda>(data, fill, m, u). num_missing data fill m)"
    by simp
qed

declare fill_loop.simps [simp del]

lemma hnum_eq: "hnum d m k j i = real (length (valid_values m (horizontal_neighbours d k j i)))"
  by (simp add: hnum_def valid_def valid_values_def horizontal_neighbours_def)

lemma hsum_eq: "hsum d m k j i = sum_list (valid_values m (horizontal_neighbours d k j i))"
  by (simp add: hsum_def valid_def valid_values_def horizontal_neighbours_def)

lemma vertical_neighbours_shift:
  assumes "in_bounds d k j i"
  shows "vertical_neighbours d k j i = [shift_u d k j i, shift_d d k j i]"
proof -
  have "k < dim_z d" using assms by (simp add: in_bounds_def)
  then have "k + 1 < dim_z d \<longleftrightarrow> k \<noteq> dim_z d - 1" by auto
  then show ?thesis
    by (simp add: vertical_neighbours_def shift_u_def shift_d_def)
qed

lemma vnum_eq:
  "in_bounds d k j i \<Longrightarrow>
     vnum d m k j i = real (length (valid_values m (vertical_neighbours d k j i)))"
  by (simp add: vertical_neighbours_shift vnum_def valid_def valid_values_def)

lemma vsum_eq:
  "in_bounds d k j i \<Longrightarrow>
     vsum d m k j i = sum_list (valid_values m (vertical_neighbours d k j i))"
  by (simp add: vertical_neighbours_shift vsum_def valid_def valid_values_def)



lemma extend_iter_in_bounds:
  assumes "in_bounds d k j i"
  shows "extend_iter d m u = Inr (if u then fill_v (fill_h d m) d m else fill_h d m)"
  using assms by (auto simp: extend_iter_eq in_bounds_def)

lemma extend_iter_horizontal:
  assumes "in_bounds d k j i" and "cell d k j i = m"
    and "valid_values m (horizontal_neighbours d k j i) \<noteq> []"
  shows "result_cell (extend_iter d m u) k j i =
           Inr (mean (valid_values m (horizontal_neighbours d k j i)))"
proof -
  have pos: "hnum d m k j i > 0" using assms(3) by (simp add: hnum_eq)
  have h: "cell (fill_h d m) k j i = mean (valid_values m (horizontal_neighbours d k j i))"
    using assms(1,2) pos by (simp add: fill_h_cell) (simp add: hnum_eq hsum_eq mean_def)
  have v: "cell (fill_v (fill_h d m) d m) k j i = cell (fill_h d m) k j i"
    using pos by (simp add: fill_v_cell)
  show ?thesis
    using h v by (simp add: extend_iter_in_bounds [OF assms(1)] result_cell_def)
qed


lemma field5_cell: "cell field5 k j i = (if j = 1 \<and> i = 2 then - 9999 else 5)"
  by (simp add: field5_def)


lemma assign_where_id:
  assumes "\<And>k j i. in_bounds d k j i \<Longrightarrow> \<not> ix k j i"
  shows "assign_where d ix v = d"
proof -
  have "(\<lambda>k j i. if in_bounds d k j i \<and> ix k j i then v k j i else cell d k j i) = cell d"
    using assms by (intro ext) auto
  then show ?thesis by (simp add: assign_where_def)
qed

lemma extend_iter_no_sentinel:
  assumes "extend_iter d m u = Inr d'"
    and "\<And>k j i. in_bounds d k j i \<Longrightarrow> cell d k j i \<noteq> m"
  shows "d' = d"
proof -
  have h: "fill_h d m = d"
    unfolding fill_h_def using assms(2) by (intro assign_where_id) auto
  have v: "fill_v d d m = d"
    unfolding fill_v_def using assms(2) by (intro assign_where_id) auto
  from assms(1) show ?thesis
    by (auto simp: extend_iter_eq h v split: if_splits)
qed

lemma extend_loop_no_sentinel:
  "extend_loop n d m u = Inr d' \<Longrightarrow>
   (\<And>k j i. in_bounds d k j i \<Longrightarrow> cell d k j i \<noteq> m) \<Longrightarrow> d' = d"
proof (induction n arbitrary: d)
  case 0
  then show ?case by simp
next
  case (Suc n)
  from Suc.prems(1) obtain d1 where s: "extend_iter d m u = Inr d1"
    and r: "extend_loop n d1 m u = Inr d'"
    by (auto split: sum.splits)
  from extend_iter_no_sentinel [OF s Suc.prems(2)] have "d1 = d" by simp
  with r Suc.IH [of d] Suc.prems(2) show ?case by simp
qed

lemma extend_into_mask_Inr_plain:
  assumes "extend_into_mask d msk m masked u n = Inr d'"
  shows "\<not> masked" and "extend_loop n d m u = Inr d'"
  using assms by (auto simp: extend_into_mask_def Let_def split: if_splits sum.splits)

text \<open>
  C10. Whatever the array, the sentinel, the number of iterations and the mode, an array
  returned by \<open>extend_into_mask\<close> has the shape of the input and agrees with it on every
  cell whose entry value differs from the sentinel; an array without sentinel cells is
  returned identical.
\<close>

theorem extend_into_mask_frame:
  assumes "extend_into_mask d msk m masked u n = Inr d'"
  shows "dim_z d' = dim_z d \<and> dim_y d' = dim_y d \<and> dim_x d' = dim_x d \<and>
         (\<forall>k j i. in_bounds d k j i \<and> cell d k j i \<noteq> m \<longrightarrow> cell d' k j i = cell d k j i) \<and>
         ((\<forall>k j i. in_bounds d k j i \<longrightarrow> cell d k j i \<noteq> m) \<longrightarrow> d' = d)"
proof -
  note r = extend_into_mask_Inr_plain(2) [OF assms]
  from extend_loop_frame [OF r] extend_loop_no_sentinel [OF r]
  show ?thesis by blast
qed

lemma field5_once:
  "extend_into_mask field5 (\<lambda>k j i. False) (- 9999) False False 1 =
     Inr (fill_h field5 (- 9999))"
  by (simp add: extend_into_mask_def extend_iter_eq field5_def)

theorem extend_into_mask_frame_witness:
  "extend_into_mask field5 (\<lambda>k j i. False) (- 9999) False False 1
     = Inr (fill_h field5 (- 9999)) \<and>
   in_bounds field5 0 0 0 \<and> cell field5 0 0 0 \<noteq> - 9999 \<and>
   cell (fill_h field5 (- 9999)) 0 0 0 = 5 \<and> dim_x (fill_h field5 (- 9999)) = 4"
proof -
  have b: "in_bounds field5 0 0 0" "cell field5 0 0 0 \<noteq> - 9999" "cell field5 0 0 0 = 5"
    "dim_x field5 = 4"
    by (simp_all add: in_bounds_def field5_def)
  from extend_into_mask_frame [OF field5_once] b
  have "cell (fill_h field5 (- 9999)) 0 0 0 = 5" "dim_x (fill_h field5 (- 9999)) = 4"
    by auto
  with field5_once b show ?thesis by simp
qed

lemma extend_into_mask_masked_no_result:
  "extend_into_mask d msk m True u n \<noteq> Inr d'"
  by (auto simp: extend_into_mask_def Let_def split: sum.splits)

lemma extend_into_mask_conflict:
  "m \<noteq> - 9999 \<Longrightarrow> extend_into_mask d msk m True u n = Inl ConflictingConfigError"
  by (simp add: extend_into_mask_def)

text \<open>
  C7 fails on the way out: for a masked array with the default sentinel (here the 3 x 4
  example, one cell masked, one iteration) the call converts the mask to the sentinel,
  iterates, and then ends in NameError at the re-masking, so no masked array is returned.
  The other half of the claim holds: a non-default sentinel together with
  \<open>masked = True\<close> ends in the conflicting-configuration exit.
\<close>

theorem extend_into_mask_masked_raises:
  "extend_into_mask field5 (\<lambda>k j i. j = 1 \<and> i = 2) (- 9999) True False 1 = Inl NameError \<and>
   extend_into_mask field5 (\<lambda>k j i. j = 1 \<and> i = 2) 0 True False 1 = Inl ConflictingConfigError"
  by (simp add: extend_into_mask_def extend_iter_eq field5_def)

lemma set_valid_values: "v \<in> set (valid_values m vs) \<longleftrightarrow> v \<in> set vs \<and> v \<noteq> m"
  by (simp add: valid_values_def)

lemma vertical_valid_kept:
  "set (valid_values m (vertical_neighbours d k j i))
     \<subseteq> set (valid_values m (vertical_neighbours (fill_h d m) k j i))"
proof
  fix v assume "v \<in> set (valid_values m (vertical_neighbours d k j i))"
  then have ne: "v \<noteq> m" and v: "v \<in> set (vertical_neighbours d k j i)"
    by (simp_all add: set_valid_values)
  from v consider
      (up) "v = (if k = 0 then cell d k j i else cell d (k - 1) j i)"
    | (down) "v = (if k + 1 < dim_z d then cell d (k + 1) j i else cell d k j i)"
    by (auto simp: vertical_neighbours_def)
  then have "v \<in> set (vertical_neighbours (fill_h d m) k j i)"
  proof cases
    case up
    with ne have "(if k = 0 then cell (fill_h d m) k j i else cell (fill_h d m) (k - 1) j i) = v"
      by (simp add: fill_h_frame split: if_splits)
    then show ?thesis by (simp add: vertical_neighbours_def)
  next
    case down
    with ne have "(if k + 1 < dim_z d then cell (fill_h d m) (k + 1) j i
                   else cell (fill_h d m) k j i) = v"
      by (simp add: fill_h_frame split: if_splits)
    then show ?thesis by (simp add: vertical_neighbours_def)
  qed
  with ne show "v \<in> set (valid_values m (vertical_neighbours (fill_h d m) k j i))"
    by (simp add: set_valid_values)
qed

lemma extend_once_2d:
  assumes "in_bounds d k j i"
  shows "extend_into_mask d msk m False False 1 = Inr (fill_h d m)"
  using assms by (simp add: extend_into_mask_plain extend_iter_eq in_bounds_def)

lemma extend_iter_vertical:
  assumes "in_bounds d k j i" and "cell d k j i = m"
    and "valid_values m (horizontal_neighbours d k j i) = []"
  shows "result_cell (extend_iter d m True) k j i =
           Inr (if valid_values m (vertical_neighbours (fill_h d m) k j i) \<noteq> []
                then mean (valid_values m (vertical_neighbours (fill_h d m) k j i)) else m)"
proof -
  have z: "hnum d m k j i = 0" using assms(3) by (simp add: hnum_eq)
  have h: "cell (fill_h d m) k j i = m" using assms(2) z by (simp add: fill_h_cell)
  have "cell (fill_v (fill_h d m) d m) k j i =
          (if valid_values m (vertical_neighbours (fill_h d m) k j i) \<noteq> []
           then mean (valid_values m (vertical_neighbours (fill_h d m) k j i)) else m)"
    using assms(1) h z by (simp add: fill_v_cell vnum_eq vsum_eq mean_def)
  then show ?thesis
    by (simp add: extend_iter_in_bounds [OF assms(1)] result_cell_def)
qed

text \<open>
  C6. Iteration \<open>n + 1\<close> of a 3D-mode call acts on the array \<open>dn\<close> left by the first \<open>n\<close>
  iterations; \<open>h\<close> is that array after the horizontal phase of the iteration (which is one
  2D-mode iteration on \<open>dn\<close>). For a cell of \<open>dn\<close> holding the sentinel:
  if it has no valid horizontal neighbour in \<open>dn\<close>, at the start of the iteration, and at
  least one valid vertical neighbour (the cell one level up, the cell one level down; a
  cell on the first or last level is its own neighbour on that side) in \<open>h\<close>,
  it gets the mean of its valid vertical neighbours in \<open>h\<close>, in the same pass;
  if it has a valid horizontal neighbour in \<open>dn\<close>, it gets the horizontal mean whatever
  its vertical neighbours are; otherwise it keeps the sentinel. The horizontal count
  is the one of \<open>dn\<close>: cells filled by the horizontal phase do not change it. Every
  vertical neighbour valid in \<open>dn\<close> is still a valid vertical neighbour in \<open>h\<close>.
\<close>

theorem extend_into_mask_vertical_fallback:
  assumes "extend_into_mask d msk m False True n = Inr dn"
    and "extend_into_mask dn msk m False False 1 = Inr h"
    and "in_bounds dn k j i" and "cell dn k j i = m"
  shows "(valid_values m (horizontal_neighbours dn k j i) = [] \<and>
          valid_values m (vertical_neighbours h k j i) \<noteq> [] \<longrightarrow>
            result_cell (extend_into_mask d msk m False True (Suc n)) k j i =
              Inr (mean (valid_values m (vertical_neighbours h k j i)))) \<and>
         (valid_values m (horizontal_neighbours dn k j i) \<noteq> [] \<longrightarrow>
            result_cell (extend_into_mask d msk m False True (Suc n)) k j i =
              Inr (mean (valid_values m (horizontal_neighbours dn k j i)))) \<and>
         (valid_values m (horizontal_neighbours dn k j i) = [] \<and>
          valid_values m (vertical_neighbours h k j i) = [] \<longrightarrow>
            result_cell (extend_into_mask d msk m False True (Suc n)) k j i = Inr m) \<and>
         set (valid_values m (vertical_neighbours dn k j i))
           \<subseteq> set (valid_values m (vertical_neighbours h k j i))"
proof -
  have step: "extend_into_mask d msk m False True (Suc n) = extend_iter dn m True"
    using assms(1) by (simp only: extend_into_mask_plain extend_loop_snoc) simp
  have h: "h = fill_h dn m"
    using assms(2) extend_once_2d [OF assms(3), of msk m] by simp
  show ?thesis
    unfolding step h
    using extend_iter_vertical [OF assms(3,4)] extend_iter_horizontal [OF assms(3,4), of True]
      vertical_valid_kept [of m dn k j i]
    by auto
qed

lemma stack_field_h:
  "cell (fill_h stack_field (- 9999)) k j i =
     (if k = 0 \<and> j = 0 \<and> i = 1 then 3
      else if k = 1 \<and> j = 0 \<and> i = 1 then 4
      else if k = 2 \<and> j = 0 \<and> i = 1 then 7 else cell stack_field k j i)"
  by (auto simp: fill_h_cell hnum_def hsum_def valid_def shift_w_def shift_e_def shift_s_def
      shift_n_def stack_field_def in_bounds_def)

lemma stack_field_start:
  "extend_into_mask stack_field (\<lambda>k j i. False) (- 9999) False True 0 = Inr stack_field"
  "extend_into_mask stack_field (\<lambda>k j i. False) (- 9999) False False 1
     = Inr (fill_h stack_field (- 9999))"
  by (simp_all add: extend_into_mask_plain extend_iter_eq stack_field_def)

lemma stack_field_horizontal:
  "valid_values (- 9999) (horizontal_neighbours stack_field 1 0 0) = []"
  "valid_values (- 9999) (horizontal_neighbours stack_field 2 0 2) = []"
  "valid_values (- 9999) (horizontal_neighbours stack_field 0 0 2) = []"
  "valid_values (- 9999) (horizontal_neighbours stack_field 1 0 1) = [4]"
  by (simp_all add: valid_values_def horizontal_neighbours_def shift_w_def shift_e_def
      shift_s_def shift_n_def stack_field_def)

lemma stack_field_vertical:
  "valid_values (- 9999) (vertical_neighbours (fill_h stack_field (- 9999)) 1 0 0) = [3, 7]"
  "valid_values (- 9999) (vertical_neighbours (fill_h stack_field (- 9999)) 2 0 2) = [4]"
  "valid_values (- 9999) (vertical_neighbours (fill_h stack_field (- 9999)) 0 0 2) = [4]"
  "valid_values (- 9999) (vertical_neighbours (fill_h stack_field (- 9999)) 1 0 1) = [3, 7]"
  by (simp_all add: valid_values_def vertical_neighbours_def stack_field_h)
     (simp_all add: stack_field_def)

text \<open>
  One 3D pass on \<open>stack_field\<close>, evaluated on the code: the cell between 3.0 above and
  7.0 below gets 5.0, the bottom cell under 4.0 and the top cell over 4.0 get 4.0, and
  the cell with 4.0 to its east gets 4.0 although 3.0 and 7.0 lie above and below it.
\<close>

lemma stack_field_pass:
  "extend_into_mask stack_field (\<lambda>k j i. False) (- 9999) False True 1
     = Inr (fill_v (fill_h stack_field (- 9999)) stack_field (- 9999))"
  "cell (fill_v (fill_h stack_field (- 9999)) stack_field (- 9999)) 1 0 0 = 5"
  "cell (fill_v (fill_h stack_field (- 9999)) stack_field (- 9999)) 2 0 2 = 4"
  "cell (fill_v (fill_h stack_field (- 9999)) stack_field (- 9999)) 0 0 2 = 4"
  "cell (fill_v (fill_h stack_field (- 9999)) stack_field (- 9999)) 1 0 1 = 4"
proof -
  show "extend_into_mask stack_field (\<lambda>k j i. False) (- 9999) False True 1
     = Inr (fill_v (fill_h stack_field (- 9999)) stack_field (- 9999))"
    by (simp add: extend_into_mask_plain extend_iter_eq stack_field_def)
  have dims: "dim_z stack_field = 3" "dim_y stack_field = 1" "dim_x stack_field = 3"
    by (simp_all add: stack_field_def)
  have c: "cell stack_field k j i =
             (if k = 0 \<and> i = 0 then 3 else if k = 1 \<and> i = 2 then 4
              else if k = 2 \<and> i = 0 then 7 else - 9999)" for k j i
    by (simp add: stack_field_def)
  show "cell (fill_v (fill_h stack_field (- 9999)) stack_field (- 9999)) 1 0 0 = 5"
    by (simp add: fill_v_cell stack_field_h vnum_def vsum_def hnum_def valid_def shift_u_def
        shift_d_def shift_w_def shift_e_def shift_s_def shift_n_def in_bounds_def dims c)
  show "cell (fill_v (fill_h stack_field (- 9999)) stack_field (- 9999)) 2 0 2 = 4"
    by (simp add: fill_v_cell stack_field_h vnum_def vsum_def hnum_def valid_def shift_u_def
        shift_d_def shift_w_def shift_e_def shift_s_def shift_n_def in_bounds_def dims c)
  show "cell (fill_v (fill_h stack_field (- 9999)) stack_field (- 9999)) 0 0 2 = 4"
    by (simp add: fill_v_cell stack_field_h vnum_def vsum_def hnum_def valid_def shift_u_def
        shift_d_def shift_w_def shift_e_def shift_s_def shift_n_def in_bounds_def dims c)
  show "cell (fill_v (fill_h stack_field (- 9999)) stack_field (- 9999)) 1 0 1 = 4"
    by (simp add: fill_v_cell stack_field_h vnum_def vsum_def hnum_def valid_def shift_u_def
        shift_d_def shift_w_def shift_e_def shift_s_def shift_n_def in_bounds_def dims c)
qed

theorem extend_into_mask_vertical_fallback_witness:
  "extend_into_mask stack_field (\<lambda>k j i. False) (- 9999) False True 0 = Inr stack_field \<and>
   extend_into_mask stack_field (\<lambda>k j i. False) (- 9999) False False 1
     = Inr (fill_h stack_field (- 9999)) \<and>
   in_bounds stack_field 1 0 0 \<and> cell stack_field 1 0 0 = - 9999 \<and>
   in_bounds stack_field 2 0 2 \<and> cell stack_field 2 0 2 = - 9999 \<and>
   in_bounds stack_field 0 0 2 \<and> cell stack_field 0 0 2 = - 9999 \<and>
   in_bounds stack_field 1 0 1 \<and> cell stack_field 1 0 1 = - 9999 \<and>
   result_cell (extend_into_mask stack_field (\<lambda>k j i. False) (- 9999) False True (Suc 0)) 1 0 0
     = Inr 5 \<and>
   result_cell (extend_into_mask stack_field (\<lambda>k j i. False) (- 9999) False True (Suc 0)) 2 0 2
     = Inr 4 \<and>
   result_cell (extend_into_mask stack_field (\<lambda>k j i. False) (- 9999) False True (Suc 0)) 0 0 2
     = Inr 4 \<and>
   result_cell (extend_into_mask stack_field (\<lambda>k j i. False) (- 9999) False True (Suc 0)) 1 0 1
     = Inr 4"
proof -
  note a = stack_field_start(1) and b = stack_field_start(2)
  have c: "in_bounds stack_field 1 0 0" "in_bounds stack_field 2 0 2"
    "in_bounds stack_field 0 0 2" "in_bounds stack_field 1 0 1"
    by (simp_all add: in_bounds_def stack_field_def)
  have e: "cell stack_field 1 0 0 = - 9999" "cell stack_field 2 0 2 = - 9999"
    "cell stack_field 0 0 2 = - 9999" "cell stack_field 1 0 1 = - 9999"
    by (simp_all add: stack_field_def)
  have both: "result_cell (extend_into_mask stack_field (\<lambda>k j i. False) (- 9999) False True
                (Suc 0)) 1 0 0 = Inr 5"
    using extend_into_mask_vertical_fallback [OF a b c(1) e(1),
        unfolded stack_field_horizontal stack_field_vertical]
    by (simp add: mean_def)
  have above: "result_cell (extend_into_mask stack_field (\<lambda>k j i. False) (- 9999) False True
                (Suc 0)) 2 0 2 = Inr 4"
    using extend_into_mask_vertical_fallback [OF a b c(2) e(2),
        unfolded stack_field_horizontal stack_field_vertical]
    by (simp add: mean_def)
  have below: "result_cell (extend_into_mask stack_field (\<lambda>k j i. False) (- 9999) False True
                (Suc 0)) 0 0 2 = Inr 4"
    using extend_into_mask_vertical_fallback [OF a b c(3) e(3),
        unfolded stack_field_horizontal stack_field_vertical]
    by (simp add: mean_def)
  have prio: "result_cell (extend_into_mask stack_field (\<lambda>k j i. False) (- 9999) False True
                (Suc 0)) 1 0 1 = Inr 4"
    using extend_into_mask_vertical_fallback [OF a b c(4) e(4),
        unfolded stack_field_horizontal stack_field_vertical]
    by (simp add: mean_def)
  from a b c e both above below prio show ?thesis by simp
qed

section \<open>Properties of discard and fill\<close>

lemma num_missing_pos:
  assumes "in_bounds d k j i" and "cell d k j i = m" and "fill k j i"
  shows "0 < num_missing d fill m"
proof -
  have "(k, j, i) \<in> set (filter (\<lambda>(k, j, i). cell d k j i = m \<and> fill k j i) (indices d))"
    using assms by (simp add: set_indices)
  then show ?thesis
    unfolding num_missing_def by (rule length_pos_if_in_set)
qed

lemma num_missing_zero:
  assumes "num_missing d fill m = 0" and "in_bounds d k j i"
  shows "\<not> (cell d k j i = m \<and> fill k j i)"
  using num_missing_pos [OF assms(2), of m fill] assms(1) by auto

lemma num_missing_pos_bounds:
  assumes "0 < num_missing d fill m"
  shows "\<exists>k j i. in_bounds d k j i"
proof -
  from assms have "indices d \<noteq> []" by (auto simp: num_missing_def)
  then obtain c where c: "c \<in> set (indices d)" by (cases "indices d") auto
  obtain k j i where "c = (k, j, i)" by (cases c) auto
  with c have "in_bounds d k j i" by (simp add: set_indices)
  then show ?thesis by blast
qed

lemma extend_iter_pos:
  assumes "0 < num_missing d fill m"
  shows "extend_iter d m u = Inr (one_pass d m u)"
proof -
  from num_missing_pos_bounds [OF assms] obtain k j i where "in_bounds d k j i" by blast
  then show ?thesis
    by (simp add: extend_iter_in_bounds one_pass_def)
qed

lemma extend_once_pos:
  assumes "0 < num_missing d fill m"
  shows "extend_into_mask d msk m False u 1 = Inr (one_pass d m u)"
  by (simp add: extend_into_mask_plain extend_iter_pos [OF assms])

lemma fill_loop_unfold:
  "fill_loop d fill m u =
     (if num_missing d fill m = 0 then Inr d
      else if num_missing (one_pass d m u) fill m = num_missing d fill m
           then Inl ConvergenceError
           else fill_loop (one_pass d m u) fill m u)"
proof (cases "num_missing d fill m = 0")
  case True
  then show ?thesis by (subst fill_loop.simps) simp
next
  case False
  then have "0 < num_missing d fill m" by simp
  from extend_once_pos [OF this] False show ?thesis
    by (subst fill_loop.simps) simp
qed

lemma one_pass_num_missing: "num_missing (one_pass d m u) fill m \<le> num_missing d fill m"
proof (rule num_missing_mono)
  show "dim_z (one_pass d m u) = dim_z d" "dim_y (one_pass d m u) = dim_y d"
    "dim_x (one_pass d m u) = dim_x d"
    by (simp_all add: one_pass_def)
  show "\<And>k j i. cell d k j i \<noteq> m \<Longrightarrow> cell (one_pass d m u) k j i = cell d k j i"
    by (simp add: one_pass_def fill_h_frame fill_v_frame)
qed

lemma fill_loop_char:
  "\<exists>t dt. extend_into_mask d0 msk m False u t = Inr dt \<and>
     (\<forall>s<t. \<exists>ds ds'. extend_into_mask d0 msk m False u s = Inr ds \<and>
                       extend_into_mask d0 msk m False u (Suc s) = Inr ds' \<and>
                       num_missing ds' fill m < num_missing ds fill m) \<and>
     (num_missing dt fill m = 0 \<and> fill_loop d0 fill m u = Inr dt \<or>
      (\<exists>dt'. extend_into_mask dt msk m False u 1 = Inr dt' \<and>
             num_missing dt' fill m = num_missing dt fill m \<and> 0 < num_missing dt fill m) \<and>
      fill_loop d0 fill m u = Inl ConvergenceError)"
proof (induction d0 fill m u rule: fill_loop.induct)
  case (1 data fill m u)
  let ?P = "\<lambda>d0 t dt. extend_into_mask d0 msk m False u t = Inr dt \<and>
     (\<forall>s<t. \<exists>ds ds'. extend_into_mask d0 msk m False u s = Inr ds \<and>
                       extend_into_mask d0 msk m False u (Suc s) = Inr ds' \<and>
                       num_missing ds' fill m < num_missing ds fill m) \<and>
     (num_missing dt fill m = 0 \<and> fill_loop data fill m u = Inr dt \<or>
      (\<exists>dt'. extend_into_mask dt msk m False u 1 = Inr dt' \<and>
             num_missing dt' fill m = num_missing dt fill m \<and> 0 < num_missing dt fill m) \<and>
      fill_loop data fill m u = Inl ConvergenceError)"
  have zero: "extend_into_mask data msk m False u 0 = Inr data"
    by (simp add: extend_into_mask_plain)
  show ?case
  proof (cases "num_missing data fill m = 0")
    case True
    then have "fill_loop data fill m u = Inr data" by (simp add: fill_loop_unfold)
    with True zero have "?P data 0 data" by simp
    then show ?thesis by blast
  next
    case False
    then have pos: "0 < num_missing data fill m" by simp
    note once = extend_once_pos [OF pos, of _ u]
    show ?thesis
    proof (cases "num_missing (one_pass data m u) fill m = num_missing data fill m")
      case True
      with False have "fill_loop data fill m u = Inl ConvergenceError"
        by (simp add: fill_loop_unfold)
      with True pos zero once [of msk] have "?P data 0 data" by simp
      then show ?thesis by blast
    next
      case ne: False
      with one_pass_num_missing [of data m u fill]
      have less: "num_missing (one_pass data m u) fill m < num_missing data fill m" by simp
      have rec: "fill_loop data fill m u = fill_loop (one_pass data m u) fill m u"
        using False ne by (subst fill_loop_unfold) simp
      from "1.IH" [OF pos once ne] obtain t dt where
        a: "extend_into_mask (one_pass data m u) msk m False u t = Inr dt"
        and b: "\<forall>s<t. \<exists>ds ds'. extend_into_mask (one_pass data m u) msk m False u s = Inr ds \<and>
                       extend_into_mask (one_pass data m u) msk m False u (Suc s) = Inr ds' \<and>
                       num_missing ds' fill m < num_missing ds fill m"
        and c: "num_missing dt fill m = 0 \<and> fill_loop (one_pass data m u) fill m u = Inr dt \<or>
          (\<exists>dt'. extend_into_mask dt msk m False u 1 = Inr dt' \<and>
             num_missing dt' fill m = num_missing dt fill m \<and> 0 < num_missing dt fill m) \<and>
          fill_loop (one_pass data m u) fill m u = Inl ConvergenceError"
        by blast
      have it: "extend_iter data m u = Inr (one_pass data m u)"
        by (rule extend_iter_pos [OF pos])
      have shift: "extend_into_mask data msk m False u (Suc s) =
                     extend_into_mask (one_pass data m u) msk m False u s" for s
        using it by (simp add: extend_into_mask_plain)
      have dec: "\<exists>ds ds'. extend_into_mask data msk m False u s = Inr ds \<and>
                       extend_into_mask data msk m False u (Suc s) = Inr ds' \<and>
                       num_missing ds' fill m < num_missing ds fill m" if "s < Suc t" for s
      proof (cases s)
        case 0
        with zero shift [of 0] less show ?thesis
          by (simp add: extend_into_mask_plain)
      next
        case (Suc s')
        with that have "s' < t" by simp
        with b obtain ds ds' where
          "extend_into_mask (one_pass data m u) msk m False u s' = Inr ds"
          "extend_into_mask (one_pass data m u) msk m False u (Suc s') = Inr ds'"
          "num_missing ds' fill m < num_missing ds fill m"
          by blast
        then show ?thesis unfolding Suc shift by blast
      qed
      have "?P data (Suc t) dt"
      proof (intro conjI)
        show "extend_into_mask data msk m False u (Suc t) = Inr dt"
          using a by (simp only: shift)
        show "\<forall>s<Suc t. \<exists>ds ds'. extend_into_mask data msk m False u s = Inr ds \<and>
                       extend_into_mask data msk m False u (Suc s) = Inr ds' \<and>
                       num_missing ds' fill m < num_missing ds fill m"
          using dec by blast
        show "num_missing dt fill m = 0 \<and> fill_loop data fill m u = Inr dt \<or>
          (\<exists>dt'. extend_into_mask dt msk m False u 1 = Inr dt' \<and>
             num_missing dt' fill m = num_missing dt fill m \<and> 0 < num_missing dt fill m) \<and>
          fill_loop data fill m u = Inl ConvergenceError"
          using c unfolding rec .
      qed
      then show ?thesis by blast
    qed
  qed
qed

lemma unreachable_adjacent:
  assumes "\<not> connected_to_valid d m u (k, j, i)" and "in_bounds d k j i"
    and "adjacent u (k, j, i) c'"
  shows "\<not> connected_to_valid d m u c'"
  using assms connected_to_valid.step [of d m u c' k j i] by blast

lemma sealed_self: "sealed d0 m u d0"
  unfolding sealed_def using connected_to_valid.here [of d0 _ _ _ m u] by blast

lemma sealed_cell:
  assumes "sealed d0 m u x" and "in_bounds d0 k j i" and "\<not> connected_to_valid d0 m u (k, j, i)"
  shows "cell x k j i = m"
  using assms by (simp add: sealed_def)

lemma sealed_hnum:
  assumes s: "sealed d0 m u x" and b: "in_bounds d0 k j i"
    and n: "\<not> connected_to_valid d0 m u (k, j, i)"
  shows "hnum x m k j i = 0"
proof -
  have dims: "dim_y x = dim_y d0" "dim_x x = dim_x d0" using s by (simp_all add: sealed_def)
  have self: "cell x k j i = m" by (rule sealed_cell [OF s b n])
  have nb: "cell x k' j' i' = m" if "in_bounds d0 k' j' i'" "adjacent u (k, j, i) (k', j', i')"
    for k' j' i'
    using sealed_cell [OF s that(1) unreachable_adjacent [OF n b that(2)]] .
  have w: "shift_w x k j i = m"
  proof (cases "i = 0")
    case True then show ?thesis using self by (simp add: shift_w_def)
  next
    case False
    then have "in_bounds d0 k j (i - 1)" "adjacent u (k, j, i) (k, j, i - 1)"
      using b by (auto simp: in_bounds_def adjacent_def)
    from nb [OF this] False show ?thesis by (simp add: shift_w_def)
  qed
  have e: "shift_e x k j i = m"
  proof (cases "i = dim_x x - 1")
    case True then show ?thesis using self by (simp add: shift_e_def)
  next
    case False
    then have "in_bounds d0 k j (i + 1)" "adjacent u (k, j, i) (k, j, i + 1)"
      using b dims by (auto simp: in_bounds_def adjacent_def)
    from nb [OF this] False show ?thesis by (simp add: shift_e_def)
  qed
  have so: "shift_s x k j i = m"
  proof (cases "j = 0")
    case True then show ?thesis using self by (simp add: shift_s_def)
  next
    case False
    then have "in_bounds d0 k (j - 1) i" "adjacent u (k, j, i) (k, j - 1, i)"
      using b by (auto simp: in_bounds_def adjacent_def)
    from nb [OF this] False show ?thesis by (simp add: shift_s_def)
  qed
  have no: "shift_n x k j i = m"
  proof (cases "j = dim_y x - 1")
    case True then show ?thesis using self by (simp add: shift_n_def)
  next
    case False
    then have "in_bounds d0 k (j + 1) i" "adjacent u (k, j, i) (k, j + 1, i)"
      using b dims by (auto simp: in_bounds_def adjacent_def)
    from nb [OF this] False show ?thesis by (simp add: shift_n_def)
  qed
  show ?thesis by (simp add: hnum_def valid_def w e so no)
qed

lemma sealed_vnum:
  assumes s: "sealed d0 m True x" and b: "in_bounds d0 k j i"
    and n: "\<not> connected_to_valid d0 m True (k, j, i)"
  shows "vnum x m k j i = 0"
proof -
  have dims: "dim_z x = dim_z d0" using s by (simp add: sealed_def)
  have self: "cell x k j i = m" by (rule sealed_cell [OF s b n])
  have nb: "cell x k' j' i' = m" if "in_bounds d0 k' j' i'" "adjacent True (k, j, i) (k', j', i')"
    for k' j' i'
    using sealed_cell [OF s that(1) unreachable_adjacent [OF n b that(2)]] .
  have up: "shift_u x k j i = m"
  proof (cases "k = 0")
    case True then show ?thesis using self by (simp add: shift_u_def)
  next
    case False
    then have "in_bounds d0 (k - 1) j i" "adjacent True (k, j, i) (k - 1, j, i)"
      using b by (auto simp: in_bounds_def adjacent_def)
    from nb [OF this] False show ?thesis by (simp add: shift_u_def)
  qed
  have dn: "shift_d x k j i = m"
  proof (cases "k = dim_z x - 1")
    case True then show ?thesis using self by (simp add: shift_d_def)
  next
    case False
    then have "in_bounds d0 (k + 1) j i" "adjacent True (k, j, i) (k + 1, j, i)"
      using b dims by (auto simp: in_bounds_def adjacent_def)
    from nb [OF this] False show ?thesis by (simp add: shift_d_def)
  qed
  show ?thesis by (simp add: vnum_def valid_def up dn)
qed

lemma sealed_fill_h:
  assumes "sealed d0 m u x"
  shows "sealed d0 m u (fill_h x m)"
proof -
  have "cell (fill_h x m) k j i = m"
    if "in_bounds d0 k j i" "\<not> connected_to_valid d0 m u (k, j, i)" for k j i
    using sealed_hnum [OF assms that] sealed_cell [OF assms that] by (simp add: fill_h_cell)
  then show ?thesis using assms by (simp add: sealed_def)
qed

lemma sealed_one_pass:
  assumes "sealed d0 m u x"
  shows "sealed d0 m u (one_pass x m u)"
proof (cases u)
  case False
  then show ?thesis using sealed_fill_h [OF assms] by (simp add: one_pass_def)
next
  case True
  have h: "sealed d0 m True (fill_h x m)"
    using sealed_fill_h [OF assms] True by simp
  have "cell (fill_v (fill_h x m) x m) k j i = m"
    if "in_bounds d0 k j i" "\<not> connected_to_valid d0 m True (k, j, i)" for k j i
    using sealed_vnum [OF h that] sealed_cell [OF h that]
    by (simp add: fill_v_cell)
  then show ?thesis using h True by (simp add: sealed_def one_pass_def)
qed

lemma fill_loop_sealed:
  assumes "sealed d0 m u x" and "in_bounds d0 k j i" and "fill k j i"
    and "\<not> connected_to_valid d0 m u (k, j, i)"
  shows "fill_loop x fill m u = Inl ConvergenceError"
  using assms
proof (induction x fill m u rule: fill_loop.induct)
  case (1 data fill m u)
  have "in_bounds data k j i" using "1.prems"(1,2) by (simp add: sealed_def in_bounds_def)
  moreover have "cell data k j i = m" by (rule sealed_cell [OF "1.prems"(1,2,4)])
  ultimately have pos: "0 < num_missing data fill m"
    using "1.prems"(3) by (intro num_missing_pos)
  show ?case
  proof (cases "num_missing (one_pass data m u) fill m = num_missing data fill m")
    case True
    with pos show ?thesis by (subst fill_loop_unfold) simp
  next
    case False
    have "fill_loop (one_pass data m u) fill m u = Inl ConvergenceError"
      by (rule "1.IH" [OF pos extend_once_pos [OF pos] False
            sealed_one_pass [OF "1.prems"(1)] "1.prems"(2,3,4)])
    with pos False show ?thesis by (subst fill_loop_unfold) simp
  qed
qed

text \<open>
  C1. \<open>discard_and_fill\<close> first overwrites every cell of the discard mask with the
  missing value, giving \<open>d0\<close>. It then applies one mask-filler iteration at a time: there
  is a number \<open>t\<close> of iterations, each of which lowered the number of cells both missing
  and required, after which either no such cell is left and the array after \<open>t\<close>
  iterations is returned, or one more iteration leaves the (positive) number unchanged
  and the call ends in the convergence error. The call always ends in one of these two
  ways. A returned array has no cell that is both missing and required. When a required
  cell has no path through the neighbour graph to a valid cell of \<open>d0\<close>, the call ends in
  the convergence error.
\<close>

theorem discard_and_fill_spec:
  "let d0 = assign_where d discard (\<lambda>k j i. m) in
     (\<forall>k j i. in_bounds d k j i \<and> discard k j i \<longrightarrow> cell d0 k j i = m) \<and>
     (\<exists>t dt. extend_into_mask d0 (\<lambda>k j i. False) m False u t = Inr dt \<and>
        (\<forall>s<t. \<exists>ds ds'. extend_into_mask d0 (\<lambda>k j i. False) m False u s = Inr ds \<and>
                          extend_into_mask d0 (\<lambda>k j i. False) m False u (Suc s) = Inr ds' \<and>
                          num_missing ds' fill m < num_missing ds fill m) \<and>
        (num_missing dt fill m = 0 \<and> discard_and_fill d discard fill m u = Inr dt \<or>
         (\<exists>dt'. extend_into_mask dt (\<lambda>k j i. False) m False u 1 = Inr dt' \<and>
                num_missing dt' fill m = num_missing dt fill m \<and>
                0 < num_missing dt fill m) \<and>
         discard_and_fill d discard fill m u = Inl ConvergenceError)) \<and>
     (\<forall>d'. discard_and_fill d discard fill m u = Inr d' \<longrightarrow>
           (\<forall>k j i. in_bounds d' k j i \<longrightarrow> \<not> (cell d' k j i = m \<and> fill k j i))) \<and>
     (\<forall>k j i. in_bounds d k j i \<and> fill k j i \<and> \<not> connected_to_valid d0 m u (k, j, i) \<longrightarrow>
           discard_and_fill d discard fill m u = Inl ConvergenceError)"
proof -
  define d0 where "d0 = assign_where d discard (\<lambda>k j i. m)"
  have df: "discard_and_fill d discard fill m u = fill_loop d0 fill m u"
    by (simp add: discard_and_fill_def d0_def)
  have a: "\<forall>k j i. in_bounds d k j i \<and> discard k j i \<longrightarrow> cell d0 k j i = m"
    by (simp add: d0_def assign_where_cell)
  note ch = fill_loop_char [of d0 "\<lambda>k j i. False" m u fill]
  have c: "\<forall>d'. fill_loop d0 fill m u = Inr d' \<longrightarrow>
           (\<forall>k j i. in_bounds d' k j i \<longrightarrow> \<not> (cell d' k j i = m \<and> fill k j i))"
  proof (intro allI impI)
    fix d' k j i
    assume r: "fill_loop d0 fill m u = Inr d'" and b: "in_bounds d' k j i"
    from ch r have "num_missing d' fill m = 0" by auto
    from num_missing_zero [OF this b] show "\<not> (cell d' k j i = m \<and> fill k j i)" .
  qed
  have e: "\<forall>k j i. in_bounds d k j i \<and> fill k j i \<and> \<not> connected_to_valid d0 m u (k, j, i) \<longrightarrow>
           fill_loop d0 fill m u = Inl ConvergenceError"
  proof (intro allI impI)
    fix k j i
    assume h: "in_bounds d k j i \<and> fill k j i \<and> \<not> connected_to_valid d0 m u (k, j, i)"
    then have "in_bounds d0 k j i" by (simp add: d0_def)
    with h show "fill_loop d0 fill m u = Inl ConvergenceError"
      by (intro fill_loop_sealed [OF sealed_self]) auto
  qed
  show ?thesis
    unfolding Let_def d0_def [symmetric] df
    using a ch c e by (intro conjI)
qed

lemma connected_2d_level:
  "connected_to_valid d m False c \<Longrightarrow> \<exists>j i. in_bounds d (fst c) j i \<and> cell d (fst c) j i \<noteq> m"
proof (induction rule: connected_to_valid.induct)
  case (here k j i)
  then show ?case by auto
next
  case (step c' k j i)
  from step.hyps(2) have "fst c' = k" by (cases c') (auto simp: adjacent_def)
  with step.IH show ?case by simp
qed

lemma empty_levels_discard:
  "assign_where empty_levels (\<lambda>k j i. False) (\<lambda>k j i. - 9999) = empty_levels"
  by (rule assign_where_id) simp

theorem discard_and_fill_spec_witness:
  "in_bounds empty_levels 1 0 0 \<and>
   \<not> connected_to_valid (assign_where empty_levels (\<lambda>k j i. False) (\<lambda>k j i. - 9999))
        (- 9999) False (1, 0, 0) \<and>
   discard_and_fill empty_levels (\<lambda>k j i. False) (\<lambda>k j i. True) (- 9999) False
     = Inl ConvergenceError"
proof -
  have b: "in_bounds empty_levels 1 0 0" by (simp add: in_bounds_def empty_levels_def)
  have n: "\<not> connected_to_valid (assign_where empty_levels (\<lambda>k j i. False) (\<lambda>k j i. - 9999))
        (- 9999) False (1, 0, 0)"
  proof
    assume "connected_to_valid (assign_where empty_levels (\<lambda>k j i. False) (\<lambda>k j i. - 9999))
        (- 9999) False (1, 0, 0)"
    from connected_2d_level [OF this] show False
      by (simp add: empty_levels_discard) (simp add: empty_levels_def)
  qed
  from discard_and_fill_spec [of empty_levels "\<lambda>k j i. False" "- 9999" False "\<lambda>k j i. True"]
  have "\<forall>k j i. in_bounds empty_levels k j i \<and> True \<and>
          \<not> connected_to_valid (assign_where empty_levels (\<lambda>k j i. False) (\<lambda>k j i. - 9999))
               (- 9999) False (k, j, i) \<longrightarrow>
          discard_and_fill empty_levels (\<lambda>k j i. False) (\<lambda>k j i. True) (- 9999) False
            = Inl ConvergenceError"
    unfolding Let_def by blast
  with b n show ?thesis by blast
qed

lemma num_missing_none:
  assumes "\<And>k j i. in_bounds d k j i \<Longrightarrow> cell d k j i \<noteq> m"
  shows "num_missing d fill m = 0"
proof -
  have "\<not> (case x of (k, j, i) \<Rightarrow> cell d k j i = m \<and> fill k j i)"
    if "x \<in> set (indices d)" for x
  proof -
    obtain k j i where x: "x = (k, j, i)" by (cases x) auto
    with that have "in_bounds d k j i" by (simp add: set_indices)
    from assms [OF this] x show ?thesis by simp
  qed
  then have "filter (\<lambda>(k, j, i). cell d k j i = m \<and> fill k j i) (indices d) = []"
    by (simp add: filter_empty_conv)
  then show ?thesis by (simp add: num_missing_def)
qed

lemma field5_filled: "in_bounds field5 k j i \<Longrightarrow> cell (fill_h field5 (- 9999)) k j i = 5"
  by (auto simp: fill_h_cell hnum_def hsum_def valid_def shift_w_def shift_e_def shift_s_def
      shift_n_def field5_def in_bounds_def)

lemma discard_and_fill_field5:
  "discard_and_fill field5 (\<lambda>k j i. False) (\<lambda>k j i. True) (- 9999) False
     = Inr (fill_h field5 (- 9999))"
proof -
  have d0: "assign_where field5 (\<lambda>k j i. False) (\<lambda>k j i. - 9999) = field5"
    by (rule assign_where_id) simp
  have "in_bounds field5 0 1 2" "cell field5 0 1 2 = - 9999"
    by (simp_all add: in_bounds_def field5_def)
  then have pos: "0 < num_missing field5 (\<lambda>k j i. True) (- 9999)"
    by (intro num_missing_pos) auto
  have z: "num_missing (fill_h field5 (- 9999)) (\<lambda>k j i. True) (- 9999) = 0"
    by (rule num_missing_none) (simp add: field5_filled)
  have "fill_loop field5 (\<lambda>k j i. True) (- 9999) False =
          fill_loop (fill_h field5 (- 9999)) (\<lambda>k j i. True) (- 9999) False"
    using pos z by (subst fill_loop_unfold) (simp add: one_pass_def)
  also have "\<dots> = Inr (fill_h field5 (- 9999))"
    using z by (subst fill_loop_unfold) simp
  finally show ?thesis by (simp add: discard_and_fill_def d0)
qed

section \<open>Properties of the boundary-slice routine\<close>

lemma interp_bdry_depth_dependent:
  assumes "interp2d
             (select (concat (replicate (length source_z) source_h)) (map Not (concat data_mask)))
             (select (concat (map (\<lambda>z. replicate (length source_h) z) source_z))
                (map Not (concat source_z_mask)))
             (select (concat source_data) (map Not (concat data_mask)))
             target_h target_z = Inr data_interp"
  shows "interp_bdry interp2d source_h source_z source_z_mask source_data data_mask
           target_h target_z target_hfac True =
         Inr (map2 (map2 (\<lambda>v hfac. if hfac = 0 then 0 else v)) data_interp target_hfac)"
  using assms by (simp add: interp_bdry_def Let_def)

text \<open>
  C9 fails for \<open>depth_dependent = False\<close>: whatever the source slice, the target axes and
  the wet fractions, the call ends in UnboundLocalError, because that path evaluates an
  interpolant it never built. Nothing is interpolated and no cell is zero-filled. With
  \<open>depth_dependent = True\<close> the interpolant is built, evaluated and zero-filled as the
  claim says.
\<close>

theorem interp_bdry_depth_independent_raises:
  "interp_bdry interp2d source_h source_z source_z_mask source_data data_mask
     target_h target_z target_hfac False = Inl UnboundLocalError"
  by (simp add: interp_bdry_def Let_def)

end
